theory Spec2Isabelle
  imports Main
begin

section \<open>Outcomes of a validator call\<close>

text \<open>
  A validator is a callable on one string. It returns nothing when the value is
  accepted and raises otherwise. Three exceptions can leave the code of
  \<^verbatim>\<open>localflavor/nl/validators.py\<close>: the framework's \<^verbatim>\<open>ValidationError\<close>, carrying the
  message, and the interpreter's own \<^verbatim>\<open>ValueError\<close> (from \<^verbatim>\<open>int\<close>) and \<^verbatim>\<open>IndexError\<close>
  (from subscripting). A call is a value of \<open>exn + unit\<close>: \<open>Inr ()\<close> is silent acceptance,
  \<open>Inl e\<close> is the exception that propagates to the caller.

  Strings are lists of \<^typ>\<open>char\<close>, read as code points below 256. In that range the
  class \<^verbatim>\<open>\d\<close> holds the ten ASCII digits only, and \<^verbatim>\<open>\s\<close> holds the characters
  listed in \<open>is_space\<close>. Messages are the untranslated message identifiers.
  The interpreter is read as Python 3.
\<close>

datatype exn = ValidationError string | ValueError | IndexError

type_synonym 'a result = "exn + 'a"

abbreviation newline :: char where
  "newline \<equiv> CHR 0x0A"

section \<open>Character classes\<close>

text \<open>A bracket range \<^verbatim>\<open>[lo-hi]\<close> compares code points.\<close>

definition in_range :: "char \<Rightarrow> char \<Rightarrow> char \<Rightarrow> bool" where
  "in_range lo hi c = ((of_char lo :: nat) \<le> of_char c \<and> (of_char c :: nat) \<le> of_char hi)"

text \<open>\<^verbatim>\<open>\d\<close> and \<^verbatim>\<open>[0-9]\<close>.\<close>

definition is_digit :: "char \<Rightarrow> bool" where
  "is_digit c = in_range (CHR ''0'') (CHR ''9'') c"

text \<open>\<^verbatim>\<open>[A-Z]\<close> and \<^verbatim>\<open>[1-9]\<close>.\<close>

definition is_upper :: "char \<Rightarrow> bool" where
  "is_upper c = in_range (CHR ''A'') (CHR ''Z'') c"

definition is_nonzero_digit :: "char \<Rightarrow> bool" where
  "is_nonzero_digit c = in_range (CHR ''1'') (CHR ''9'') c"

text \<open>
  \<^verbatim>\<open>\s\<close> on text: tab, line feed, vertical tab, form feed, carriage return, the four
  separators 0x1C to 0x1F, space, 0x85 and 0xA0.
\<close>

definition is_space :: "char \<Rightarrow> bool" where
  "is_space c = ((of_char c :: nat) \<in> {9, 10, 11, 12, 13, 28, 29, 30, 31, 32, 133, 160})"

text \<open>
  The whitespace \<^verbatim>\<open>int\<close> skips around a number: the same without the four separators
  0x1C to 0x1F, which \<^verbatim>\<open>int\<close> leaves in place and then refuses.
\<close>

definition is_int_space :: "char \<Rightarrow> bool" where
  "is_int_space c = ((of_char c :: nat) \<in> {9, 10, 11, 12, 13, 32, 133, 160})"

section \<open>The fragment of the regular-expression library the validators use\<close>

text \<open>
  Every anchored pattern of the two source files is \<^verbatim>\<open>^\<close>, a sequence of quantified
  character classes, \<^verbatim>\<open>$\<close>. A quantified class is the class, the least and the greatest
  number of repetitions (\<open>None\<close> for unbounded). Without the multi-line flag \<^verbatim>\<open>^\<close>
  matches at the start of the string only, so \<^verbatim>\<open>search\<close> succeeds exactly when the
  sequence matches from position 0; \<^verbatim>\<open>$\<close> matches at the end of the string and also
  just before a line feed that is the last character.
\<close>

type_synonym atom = "(char \<Rightarrow> bool) \<times> nat \<times> nat option"

definition at_dollar :: "string \<Rightarrow> bool" where
  "at_dollar s = (s = [] \<or> s = [newline])"

fun re_match :: "atom list \<Rightarrow> string \<Rightarrow> bool" where
  "re_match [] s = at_dollar s"
| "re_match ((cls, lo, hi) # atoms) s =
     list_ex (\<lambda>k. list_all cls (take k s) \<and> re_match atoms (drop k s))
       [lo ..< Suc (case hi of None \<Rightarrow> length s | Some h \<Rightarrow> min h (length s))]"

definition re_search :: "atom list \<Rightarrow> string \<Rightarrow> bool" where
  "re_search regex s = re_match regex s"

text \<open>
  \<^verbatim>\<open>re.search\<close> with the unanchored pattern \<^verbatim>\<open>[1-9]+\<close>: the match starts at the first
  character of the class; \<open>None\<close> when there is none. Only \<^verbatim>\<open>m.start()\<close> is used.
\<close>

fun re_search_start :: "(char \<Rightarrow> bool) \<Rightarrow> string \<Rightarrow> nat option" where
  "re_search_start cls [] = None"
| "re_search_start cls (c # cs) =
     (if cls c then Some 0 else map_option Suc (re_search_start cls cs))"

text \<open>\<^verbatim>\<open>re.sub\<close> of a single character class by the empty string.\<close>

definition re_sub_empty :: "(char \<Rightarrow> bool) \<Rightarrow> string \<Rightarrow> string" where
  "re_sub_empty cls s = filter (\<lambda>c. \<not> cls c) s"

section \<open>Built-ins: \<^verbatim>\<open>int\<close>, subscripting\<close>

text \<open>
  \<^verbatim>\<open>int(s)\<close> on text: surrounding whitespace is skipped, one sign is allowed, and what
  remains must be decimal digits, where single underscores may stand between two digits;
  anything else raises \<^verbatim>\<open>ValueError\<close>. The underscores do not count for the value.
\<close>

definition digit_val :: "char \<Rightarrow> int" where
  "digit_val c = int (of_char c) - 48"

definition digits_value :: "string \<Rightarrow> int" where
  "digits_value ds = foldl (\<lambda>acc c. 10 * acc + digit_val c) 0 ds"

definition py_strip :: "string \<Rightarrow> string" where
  "py_strip s = rev (dropWhile is_int_space (rev (dropWhile is_int_space s)))"

fun grouped :: "string \<Rightarrow> bool" where
  "grouped [] = False"
| "grouped [c] = is_digit c"
| "grouped (c # d # rest) =
     (is_digit c \<and> (if d = CHR ''_'' then grouped rest else grouped (d # rest)))"

definition py_unsigned :: "string \<Rightarrow> int result" where
  "py_unsigned ds =
     (if grouped ds then Inr (digits_value (filter (\<lambda>c. c \<noteq> CHR ''_'') ds))
      else Inl ValueError)"

definition py_int :: "string \<Rightarrow> int result" where
  "py_int s =
     (case py_strip s of
        [] \<Rightarrow> Inl ValueError
      | c # cs \<Rightarrow>
          if c = CHR ''-'' then map_sum id uminus (py_unsigned cs)
          else if c = CHR ''+'' then py_unsigned cs
          else py_unsigned (c # cs))"

text \<open>\<^verbatim>\<open>s[i]\<close>: a negative index counts from the end; out of range raises.\<close>

definition py_index :: "string \<Rightarrow> int \<Rightarrow> char result" where
  "py_index s i =
     (let n = int (length s); j = (if i < 0 then n + i else i)
      in if 0 \<le> j \<and> j < n then Inr (s ! nat j) else Inl IndexError)"

section \<open>The framework's regex validator\<close>

text \<open>
  \<^verbatim>\<open>RegexValidator.__call__\<close> searches the compiled pattern in the value and raises
  \<^verbatim>\<open>ValidationError(self.message)\<close> when it is not found.
\<close>

definition RegexValidator :: "atom list \<Rightarrow> string \<Rightarrow> string \<Rightarrow> unit result" where
  "RegexValidator regex message v =
     (if re_search regex v then Inr () else Inl (ValidationError message))"

section \<open>Dutch zip codes\<close>

text \<open>\<^verbatim>\<open>'^\d{4} ?[A-Z]{2}$'\<close>\<close>

definition zip_regex :: "atom list" where
  "zip_regex = [(is_digit, 4, Some 4), ((\<lambda>c. c = CHR '' ''), 0, Some 1), (is_upper, 2, Some 2)]"

definition zip_error_message :: string where
  "zip_error_message = ''Enter a valid zip code.''"

definition NLZipCodeFieldValidator :: "string \<Rightarrow> unit result" where
  "NLZipCodeFieldValidator v =
     (case RegexValidator zip_regex zip_error_message v of
        Inl e \<Rightarrow> Inl e
      | Inr _ \<Rightarrow>
          (case py_int (take 4 v) of
             Inl e \<Rightarrow> Inl e
           | Inr n \<Rightarrow> if n < 1000 then Inl (ValidationError zip_error_message) else Inr ()))"

section \<open>Dutch social security numbers (BSN) and SoFi numbers\<close>

text \<open>\<^verbatim>\<open>'^\d{9}$'\<close>\<close>

definition bsn_regex :: "atom list" where
  "bsn_regex = [(is_digit, 9, Some 9)]"

text \<open>
  The loop of \<^verbatim>\<open>bsn_checksum_ok\<close> over \<^verbatim>\<open>range(9, 1, -1)\<close>, that is 9, 8, ..., 2:
  \<^verbatim>\<open>checksum += int(value[9 - i]) * i\<close>.
\<close>

fun bsn_loop :: "string \<Rightarrow> nat list \<Rightarrow> int \<Rightarrow> int result" where
  "bsn_loop v [] checksum = Inr checksum"
| "bsn_loop v (i # rest) checksum =
     (case py_index v (9 - int i) of
        Inl e \<Rightarrow> Inl e
      | Inr c \<Rightarrow>
          (case py_int [c] of
             Inl e \<Rightarrow> Inl e
           | Inr d \<Rightarrow> bsn_loop v rest (checksum + d * int i)))"

definition bsn_checksum_ok :: "string \<Rightarrow> bool result" where
  "bsn_checksum_ok v =
     (case bsn_loop v (rev [2 ..< 10]) 0 of
        Inl e \<Rightarrow> Inl e
      | Inr checksum \<Rightarrow>
          (case py_index v (- 1) of
             Inl e \<Rightarrow> Inl e
           | Inr c \<Rightarrow>
               (case py_int [c] of
                  Inl e \<Rightarrow> Inl e
                | Inr d \<Rightarrow> Inr ((checksum - d) mod 11 = 0))))"

text \<open>
  \<^verbatim>\<open>NLBSNFieldValidator.__call__\<close>, with \<^verbatim>\<open>self.error_message\<close> as a parameter: the
  subclass overrides that class attribute and inherits \<^verbatim>\<open>__init__\<close> (which passes it to
  the regex validator as its message) and \<^verbatim>\<open>__call__\<close>.
\<close>

definition BSN_call :: "string \<Rightarrow> string \<Rightarrow> unit result" where
  "BSN_call error_message v =
     (case RegexValidator bsn_regex error_message v of
        Inl e \<Rightarrow> Inl e
      | Inr _ \<Rightarrow>
          (case py_int v of
             Inl e \<Rightarrow> Inl e
           | Inr n \<Rightarrow>
               if n = 0 then Inl (ValidationError error_message)
               else
                 (case bsn_checksum_ok v of
                    Inl e \<Rightarrow> Inl e
                  | Inr ok \<Rightarrow> if \<not> ok then Inl (ValidationError error_message) else Inr ())))"

definition bsn_error_message :: string where
  "bsn_error_message = ''Enter a valid BSN.''"

definition sofi_error_message :: string where
  "sofi_error_message = ''Enter a valid SoFi number.''"

definition NLBSNFieldValidator :: "string \<Rightarrow> unit result" where
  "NLBSNFieldValidator = BSN_call bsn_error_message"

definition NLSoFiNumberFieldValidator :: "string \<Rightarrow> unit result" where
  "NLSoFiNumberFieldValidator = BSN_call sofi_error_message"

section \<open>Dutch phone numbers\<close>

text \<open>The class \<^verbatim>\<open>[\-\s\(\)]\<close> and the pattern \<^verbatim>\<open>'^\d+$'\<close>.\<close>

definition phone_strip_class :: "char \<Rightarrow> bool" where
  "phone_strip_class c = (c = CHR ''-'' \<or> is_space c \<or> c = CHR ''('' \<or> c = CHR '')'')"

definition numeric_re :: "atom list" where
  "numeric_re = [(is_digit, 1, None)]"

definition phone_error_message :: string where
  "phone_error_message = ''Enter a valid phone number.''"

definition NLPhoneNumberFieldValidator :: "string \<Rightarrow> unit result" where
  "NLPhoneNumberFieldValidator v =
     (let phone_nr = re_sub_empty phone_strip_class v in
      if length phone_nr = 10 \<and> re_search numeric_re phone_nr then Inr ()
      else if take 3 phone_nr = ''+31'' \<and> length phone_nr = 12 \<and>
              re_search numeric_re (drop 3 phone_nr) then Inr ()
      else Inl (ValidationError phone_error_message))"

section \<open>Dutch bank account numbers\<close>

text \<open>\<^verbatim>\<open>'^[0-9]+$'\<close>; the pattern \<^verbatim>\<open>'[1-9]+'\<close> is the class \<open>is_nonzero_digit\<close>.\<close>

definition bank_regex :: "atom list" where
  "bank_regex = [(is_digit, 1, None)]"

definition bank_invalid :: string where
  "bank_invalid = ''Enter a valid bank account number.''"

definition bank_wrong_length :: string where
  "bank_wrong_length = ''Bank account numbers have 1 - 7, 9 or 10 digits.''"

text \<open>
  \<^verbatim>\<open>sum([int(a) * b for a, b in zip(value, range(1, 11))])\<close>: the comprehension
  converts from the left and stops at the first character \<^verbatim>\<open>int\<close> refuses.
\<close>

fun eleven_products :: "(char \<times> nat) list \<Rightarrow> int list result" where
  "eleven_products [] = Inr []"
| "eleven_products ((a, b) # rest) =
     (case py_int [a] of
        Inl e \<Rightarrow> Inl e
      | Inr d \<Rightarrow>
          (case eleven_products rest of
             Inl e \<Rightarrow> Inl e
           | Inr ps \<Rightarrow> Inr (d * int b # ps)))"

definition eleven_test_sum :: "string \<Rightarrow> int result" where
  "eleven_test_sum v =
     (case eleven_products (zip v [1 ..< 11]) of
        Inl e \<Rightarrow> Inl e
      | Inr ps \<Rightarrow> Inr (sum_list ps))"

definition NLBankAccountNumberFieldValidator :: "string \<Rightarrow> unit result" where
  "NLBankAccountNumberFieldValidator v =
     (case RegexValidator bank_regex bank_invalid v of
        Inl e \<Rightarrow> Inl e
      | Inr _ \<Rightarrow>
          if length v > 10 then Inl (ValidationError bank_wrong_length)
          else
            (case re_search_start is_nonzero_digit v of
               None \<Rightarrow> Inl (ValidationError bank_invalid)
             | Some start \<Rightarrow>
                 (let v1 = drop start v in
                  if length v1 \<noteq> 9 \<and> length v1 \<noteq> 10 \<and> \<not> (1 \<le> length v1 \<and> length v1 \<le> 7)
                  then Inl (ValidationError bank_wrong_length)
                  else if length v1 = 9 \<or> length v1 = 10 then
                    (let v2 = (if length v1 = 9 then ''0'' @ v1 else v1) in
                     case eleven_test_sum v2 of
                       Inl e \<Rightarrow> Inl e
                     | Inr eleven \<Rightarrow>
                         if eleven mod 11 \<noteq> 0 then Inl (ValidationError bank_invalid)
                         else Inr ())
                  else Inr ())))"

section \<open>Maltese postal codes\<close>

text \<open>
  \<^verbatim>\<open>MTPostalCodeField\<close> hands the pattern \<^verbatim>\<open>'^[A-Z]{3}\ \d{4}$'\<close> to the framework's
  \<^verbatim>\<open>RegexField\<close>. Cleaning a value with such a field does not strip it. The empty
  value never reaches a validator: it raises "This field is required." when the field
  is required (the default) and is returned as it is otherwise. A non-empty value goes
  to the regex validator for the pattern, whose failure is reported under the field's
  \<^verbatim>\<open>'invalid'\<close> message. \<open>Inr ()\<close> stands for the value being returned. Only the
  validator that the source's pattern installs is modelled, no other validator of the
  framework's character fields.
\<close>

definition mt_regex :: "atom list" where
  "mt_regex = [(is_upper, 3, Some 3), ((\<lambda>c. c = CHR '' ''), 1, Some 1), (is_digit, 4, Some 4)]"

definition mt_invalid :: string where
  "mt_invalid = ''Enter a valid postal code in format AAA 0000.''"

definition field_required :: string where
  "field_required = ''This field is required.''"

definition MTPostalCodeField :: "bool \<Rightarrow> string \<Rightarrow> unit result" where
  "MTPostalCodeField required v =
     (if v = [] then (if required then Inl (ValidationError field_required) else Inr ())
      else RegexValidator mt_regex mt_invalid v)"

section \<open>Facts about the library fragment\<close>

lemma re_match_Cons_iff:
  "re_match ((cls, lo, hi) # atoms) s \<longleftrightarrow>
     (\<exists>k. lo \<le> k \<and> k \<le> length s \<and> (case hi of None \<Rightarrow> True | Some h \<Rightarrow> k \<le> h) \<and>
          list_all cls (take k s) \<and> re_match atoms (drop k s))"
proof (cases hi)
  case None
  then show ?thesis
    unfolding re_match.simps list_ex_iff set_upt by (auto simp: less_Suc_eq_le)
next
  case (Some h)
  then show ?thesis
    unfolding re_match.simps list_ex_iff set_upt by (auto simp: less_Suc_eq_le)
qed

declare re_match.simps(2) [simp del]

lemma is_digit_not_space: "is_digit c \<Longrightarrow> \<not> is_int_space c"
  by (auto simp: is_digit_def in_range_def is_int_space_def)

lemma is_digit_not_underscore: "is_digit c \<Longrightarrow> c \<noteq> CHR ''_''"
  by (auto simp: is_digit_def in_range_def)

lemma grouped_digits: "ds \<noteq> [] \<Longrightarrow> list_all is_digit ds \<Longrightarrow> grouped ds"
  by (induction ds rule: grouped.induct) (auto simp: is_digit_not_underscore)

lemma filter_underscore_digits:
  "list_all is_digit ds \<Longrightarrow> filter (\<lambda>c. c \<noteq> CHR ''_'') ds = ds"
  by (induction ds) (auto simp: is_digit_not_underscore)

lemma py_unsigned_digits:
  "ds \<noteq> [] \<Longrightarrow> list_all is_digit ds \<Longrightarrow> py_unsigned ds = Inr (digits_value ds)"
  by (simp add: py_unsigned_def grouped_digits filter_underscore_digits)

lemma is_digit_not_newline: "is_digit c \<Longrightarrow> c \<noteq> newline"
  by (auto simp: is_digit_def in_range_def)

lemma is_digit_not_sign: "is_digit c \<Longrightarrow> c \<noteq> CHR ''-'' \<and> c \<noteq> CHR ''+''"
  by (auto simp: is_digit_def in_range_def)

lemma is_space_newline: "is_space newline"
  by (simp add: is_space_def)

lemma is_int_space_newline: "is_int_space newline"
  by (simp add: is_int_space_def)

lemma at_dollar_drop:
  "k \<le> length s \<Longrightarrow> at_dollar (drop k s) \<longleftrightarrow> k = length s \<or> (Suc k = length s \<and> s ! k = newline)"
proof -
  assume k: "k \<le> length s"
  show ?thesis
  proof (cases "k = length s")
    case True
    then show ?thesis by (simp add: at_dollar_def)
  next
    case False
    with k have lt: "k < length s" by simp
    then have d: "drop k s = s ! k # drop (Suc k) s"
      by (simp add: Cons_nth_drop_Suc)
    show ?thesis using lt False by (auto simp: at_dollar_def d)
  qed
qed

lemma py_strip_digits:
  assumes "ds \<noteq> []" "list_all is_digit ds"
  shows "py_strip ds = ds"
proof -
  from assms obtain c cs where ds: "ds = c # cs" by (cases ds) auto
  with assms have "\<not> is_int_space c" by (simp add: is_digit_not_space)
  then have a: "dropWhile is_int_space ds = ds" by (simp add: ds)
  from assms have "rev ds \<noteq> []" by simp
  then obtain x xs where r: "rev ds = x # xs" by (cases "rev ds") auto
  then have "x \<in> set ds" by (metis list.set_intros(1) set_rev)
  with assms have "\<not> is_int_space x" by (auto simp: list_all_iff is_digit_not_space)
  then have "dropWhile is_int_space (rev ds) = rev ds" by (simp add: r)
  with a show ?thesis by (simp add: py_strip_def)
qed

lemma py_strip_digits_newline:
  assumes "ds \<noteq> []" "list_all is_digit ds"
  shows "py_strip (ds @ [newline]) = ds"
proof -
  from assms obtain c cs where ds: "ds = c # cs" by (cases ds) auto
  with assms have "\<not> is_int_space c" by (simp add: is_digit_not_space)
  then have a: "dropWhile is_int_space (ds @ [newline]) = ds @ [newline]" by (simp add: ds)
  from assms have "rev ds \<noteq> []" by simp
  then obtain x xs where r: "rev ds = x # xs" by (cases "rev ds") auto
  then have "x \<in> set ds" by (metis list.set_intros(1) set_rev)
  with assms have "\<not> is_int_space x" by (auto simp: list_all_iff is_digit_not_space)
  then have "dropWhile is_int_space (rev (ds @ [newline])) = rev ds"
    by (simp add: r is_int_space_newline)
  with a show ?thesis by (simp add: py_strip_def)
qed

lemma py_int_digits:
  assumes "ds \<noteq> []" "list_all is_digit ds"
  shows "py_int ds = Inr (digits_value ds)"
proof -
  from assms obtain c cs where ds: "ds = c # cs" by (cases ds) auto
  with assms have "is_digit c" by simp
  then have "c \<noteq> CHR ''-''" "c \<noteq> CHR ''+''" using is_digit_not_sign by blast+
  then show ?thesis
    using assms py_unsigned_digits [of ds] by (simp add: py_int_def py_strip_digits ds)
qed

lemma py_int_digits_newline:
  assumes "ds \<noteq> []" "list_all is_digit ds"
  shows "py_int (ds @ [newline]) = Inr (digits_value ds)"
proof -
  from assms obtain c cs where ds: "ds = c # cs" by (cases ds) auto
  with assms have "is_digit c" by simp
  then have "c \<noteq> CHR ''-''" "c \<noteq> CHR ''+''" using is_digit_not_sign by blast+
  then show ?thesis
    using assms py_strip_digits_newline [OF assms] py_unsigned_digits [of ds]
    by (simp add: py_int_def ds)
qed

lemma py_int_digit: "is_digit c \<Longrightarrow> py_int [c] = Inr (digit_val c)"
  using py_int_digits [of "[c]"] by (simp add: digits_value_def)

lemma py_int_newline: "py_int [newline] = Inl ValueError"
  by (simp add: py_int_def py_strip_def is_int_space_def)

lemma length9:
  "length s = 9 \<longleftrightarrow> (\<exists>a b c d e f g h i. s = [a, b, c, d, e, f, g, h, i])"
  by (auto simp: eval_nat_numeral length_Suc_conv)

lemma rev_range: "rev [2 ..< 10] = [9, 8, 7, 6, 5, 4, 3, 2 :: nat]"
  by code_simp


section \<open>BSN and SoFi numbers: results\<close>

lemma re_match_exactly:
  "re_match ((cls, n, Some n) # atoms) s \<longleftrightarrow>
     n \<le> length s \<and> list_all cls (take n s) \<and> re_match atoms (drop n s)"
proof -
  have "\<And>k. (n \<le> k \<and> k \<le> length s \<and> k \<le> n \<and> list_all cls (take k s) \<and> re_match atoms (drop k s))
      \<longleftrightarrow> (k = n \<and> n \<le> length s \<and> list_all cls (take n s) \<and> re_match atoms (drop n s))"
    by (metis le_antisym order_refl)
  then show ?thesis
    unfolding re_match_Cons_iff option.case by blast
qed

lemma re_search_bsn:
  "re_search bsn_regex s \<longleftrightarrow>
     list_all is_digit (take 9 s) \<and> (length s = 9 \<or> (length s = 10 \<and> s ! 9 = newline))"
proof -
  have "re_search bsn_regex s \<longleftrightarrow>
      (9 \<le> length s \<and> list_all is_digit (take 9 s) \<and> at_dollar (drop 9 s))"
    by (simp only: re_search_def bsn_regex_def re_match_exactly re_match.simps(1))
  also have "\<dots> \<longleftrightarrow> list_all is_digit (take 9 s) \<and> (length s = 9 \<or> (length s = 10 \<and> s ! 9 = newline))"
    using at_dollar_drop [of 9 s] by auto
  finally show ?thesis .
qed

lemma bsn_checksum_ok_digits:
  assumes "list_all is_digit [a, b, c, d, e, f, g, h, i]"
  shows "bsn_checksum_ok [a, b, c, d, e, f, g, h, i] =
     Inr ((9 * digit_val a + 8 * digit_val b + 7 * digit_val c + 6 * digit_val d + 5 * digit_val e
           + 4 * digit_val f + 3 * digit_val g + 2 * digit_val h - digit_val i) mod 11 = 0)"
  using assms
  by (simp add: bsn_checksum_ok_def rev_range py_index_def py_int_digit mult.commute)

lemma BSN_call_nine_digits:
  assumes "length s = 9" "list_all is_digit s"
  shows "BSN_call msg s =
     (if digits_value s \<noteq> 0 \<and>
         11 dvd ((\<Sum>i<8. digit_val (s ! i) * (9 - int i)) - digit_val (s ! 8))
      then Inr () else Inl (ValidationError msg))"
proof -
  from assms(1) obtain a b c d e f g h i where s: "s = [a, b, c, d, e, f, g, h, i]"
    unfolding length9 by blast
  have re: "re_search bsn_regex s" using assms by (simp add: re_search_bsn)
  have pi: "py_int s = Inr (digits_value s)" using assms by (intro py_int_digits) auto
  have sm: "(\<Sum>i<8. digit_val (s ! i) * (9 - int i)) =
      9 * digit_val a + 8 * digit_val b + 7 * digit_val c + 6 * digit_val d + 5 * digit_val e
           + 4 * digit_val f + 3 * digit_val g + 2 * digit_val h"
    by (simp add: s eval_nat_numeral lessThan_Suc)
  have ck: "bsn_checksum_ok s = Inr (11 dvd ((\<Sum>i<8. digit_val (s ! i) * (9 - int i)) - digit_val (s ! 8)))"
    unfolding sm using assms(2) unfolding s
    by (simp only: bsn_checksum_ok_digits) (simp add: dvd_eq_mod_eq_0)
  show ?thesis
    by (simp add: BSN_call_def RegexValidator_def re pi ck)
qed

text \<open>
  C3. A string of exactly nine digits whose value is not zero is accepted by the BSN
  validator exactly when nine times the first digit, eight times the second, ..., twice
  the eighth, minus the ninth, is divisible by 11; every other such string is rejected
  with the message "Enter a valid BSN.".
\<close>

theorem bsn_nine_digits_checksum:
  assumes "length s = 9" and "list_all is_digit s" and "digits_value s \<noteq> 0"
  shows "NLBSNFieldValidator s =
     (if 11 dvd ((\<Sum>i<8. digit_val (s ! i) * (9 - int i)) - digit_val (s ! 8))
      then Inr () else Inl (ValidationError ''Enter a valid BSN.''))"
  using assms by (simp add: NLBSNFieldValidator_def bsn_error_message_def BSN_call_nine_digits)

theorem bsn_nine_digits_checksum_witness:
  "length ''111222333'' = 9 \<and> list_all is_digit ''111222333'' \<and> digits_value ''111222333'' \<noteq> 0 \<and>
   11 dvd ((\<Sum>i<8. digit_val (''111222333'' ! i) * (9 - int i)) - digit_val (''111222333'' ! 8)) \<and>
   NLBSNFieldValidator ''111222333'' = Inr ()"
proof -
  have l: "length ''111222333'' = 9" by simp
  have d: "list_all is_digit ''111222333''" by (simp add: is_digit_def in_range_def)
  have v: "digits_value ''111222333'' \<noteq> 0" by (simp add: digits_value_def digit_val_def)
  have c: "11 dvd ((\<Sum>i<8. digit_val (''111222333'' ! i) * (9 - int i)) - digit_val (''111222333'' ! 8))"
    by (simp add: eval_nat_numeral lessThan_Suc digit_val_def)
  have r: "NLBSNFieldValidator ''111222333'' = Inr ()"
    using bsn_nine_digits_checksum [OF l d v] c by (simp only: if_True)
  from l d v c r show ?thesis by (intro conjI)
qed


lemma bsn_loop_digits:
  assumes "list_all is_digit [a, b, c, d, e, f, g, h]"
  shows "bsn_loop ([a, b, c, d, e, f, g, h] @ rest) (rev [2 ..< 10]) 0 =
     Inr (9 * digit_val a + 8 * digit_val b + 7 * digit_val c + 6 * digit_val d + 5 * digit_val e
           + 4 * digit_val f + 3 * digit_val g + 2 * digit_val h)"
  using assms by (simp add: rev_range py_index_def py_int_digit mult.commute)

lemma BSN_call_nine_digits_newline:
  assumes "length ds = 9" "list_all is_digit ds"
  shows "BSN_call msg (ds @ [newline]) =
     (if digits_value ds = 0 then Inl (ValidationError msg) else Inl ValueError)"
proof -
  from assms(1) obtain a b c d e f g h i where ds: "ds = [a, b, c, d, e, f, g, h, i]"
    unfolding length9 by blast
  have re: "re_search bsn_regex (ds @ [newline])"
    using assms by (simp add: re_search_bsn nth_append)
  have pi: "py_int (ds @ [newline]) = Inr (digits_value ds)"
    using assms by (intro py_int_digits_newline) auto
  have lp: "bsn_loop (ds @ [newline]) (rev [2 ..< 10]) 0 =
     Inr (9 * digit_val a + 8 * digit_val b + 7 * digit_val c + 6 * digit_val d + 5 * digit_val e
           + 4 * digit_val f + 3 * digit_val g + 2 * digit_val h)"
    using bsn_loop_digits [of a b c d e f g h "[i, newline]"] assms(2) by (simp add: ds)
  have ix: "py_index (ds @ [newline]) (- 1) = Inr newline"
    by (simp add: py_index_def ds)
  have ck: "bsn_checksum_ok (ds @ [newline]) = Inl ValueError"
    unfolding bsn_checksum_ok_def lp ix by (simp add: py_int_newline)
  show ?thesis
    by (simp add: BSN_call_def RegexValidator_def re pi ck)
qed

text \<open>
  The validator never accepts anything but nine digits: an accepted value has length 9
  and consists of digits.
\<close>

lemma bsn_accepts_only_nine_digits:
  assumes "BSN_call msg v = Inr ()"
  shows "length v = 9 \<and> list_all is_digit v"
proof -
  from assms have re: "re_search bsn_regex v"
    by (auto simp: BSN_call_def RegexValidator_def split: if_splits)
  show ?thesis
  proof (cases "length v = 9")
    case True
    with re show ?thesis by (simp add: re_search_bsn)
  next
    case False
    with re have len: "length v = 10" and nl: "v ! 9 = newline" and dg: "list_all is_digit (take 9 v)"
      by (auto simp: re_search_bsn)
    have "v = take 9 v @ drop 9 v" by simp
    moreover have "drop 9 v = [v ! 9]"
      using len by (simp add: list_eq_iff_nth_eq)
    ultimately have v: "v = take 9 v @ [newline]" using nl by simp
    have "BSN_call msg (take 9 v @ [newline]) \<noteq> Inr ()"
      using BSN_call_nine_digits_newline [of "take 9 v" msg] dg len by simp
    with v assms show ?thesis by simp
  qed
qed

lemma py_unsigned_error: "py_unsigned s = Inl e \<Longrightarrow> e = ValueError"
  by (auto simp: py_unsigned_def split: if_splits)

lemma py_int_error: "py_int s = Inl e \<Longrightarrow> e = ValueError"
proof (cases "py_strip s")
  case Nil
  then show "py_int s = Inl e \<Longrightarrow> e = ValueError" by (simp add: py_int_def)
next
  case (Cons c cs)
  then show "py_int s = Inl e \<Longrightarrow> e = ValueError"
    by (cases "py_unsigned cs") (auto simp: py_int_def dest: py_unsigned_error split: if_splits)
qed

lemma py_index_error: "py_index s i = Inl e \<Longrightarrow> e = IndexError"
  by (auto simp: py_index_def Let_def split: if_splits)

lemma bsn_loop_error:
  "bsn_loop v is acc = Inl e \<Longrightarrow> e = ValueError \<or> e = IndexError"
proof (induction "is" arbitrary: acc)
  case Nil
  then show ?case by simp
next
  case (Cons i rest)
  then show ?case
    by (auto split: sum.splits dest: py_index_error py_int_error)
qed

lemma bsn_checksum_ok_error:
  "bsn_checksum_ok v = Inl e \<Longrightarrow> e = ValueError \<or> e = IndexError"
  by (auto simp: bsn_checksum_ok_def split: sum.splits
      dest: py_index_error py_int_error bsn_loop_error)

lemma BSN_call_accepts_any_message:
  "BSN_call m1 v = Inr () \<longleftrightarrow> BSN_call m2 v = Inr ()"
  by (auto simp: BSN_call_def RegexValidator_def split: if_splits sum.splits)

lemma BSN_call_validation_error:
  "BSN_call m1 v = Inl (ValidationError m) \<Longrightarrow> m = m1 \<and> BSN_call m2 v = Inl (ValidationError m2)"
  by (auto simp: BSN_call_def RegexValidator_def split: if_splits sum.splits
      dest: py_int_error bsn_checksum_ok_error)

text \<open>
  C4. The SoFi validator accepts a value exactly when the BSN validator accepts it, and
  raises a validation error exactly when the BSN validator does; the validation error
  of the SoFi validator always carries "Enter a valid SoFi number.", that of the BSN
  validator "Enter a valid BSN.".
\<close>

theorem sofi_same_decision_as_bsn:
  "(NLSoFiNumberFieldValidator v = Inr () \<longleftrightarrow> NLBSNFieldValidator v = Inr ()) \<and>
   (NLSoFiNumberFieldValidator v = Inl (ValidationError ''Enter a valid SoFi number.'') \<longleftrightarrow>
      NLBSNFieldValidator v = Inl (ValidationError ''Enter a valid BSN.'')) \<and>
   (\<forall>m. NLSoFiNumberFieldValidator v = Inl (ValidationError m) \<longrightarrow> m = ''Enter a valid SoFi number.'')"
proof -
  have a: "BSN_call sofi_error_message v = Inr () \<longleftrightarrow> BSN_call bsn_error_message v = Inr ()"
    by (rule BSN_call_accepts_any_message)
  have b: "BSN_call sofi_error_message v = Inl (ValidationError sofi_error_message) \<longleftrightarrow>
      BSN_call bsn_error_message v = Inl (ValidationError bsn_error_message)"
    using BSN_call_validation_error by blast
  have c: "\<forall>m. BSN_call sofi_error_message v = Inl (ValidationError m) \<longrightarrow> m = sofi_error_message"
    using BSN_call_validation_error by blast
  from a b c show ?thesis
    unfolding NLSoFiNumberFieldValidator_def NLBSNFieldValidator_def sofi_error_message_def
      bsn_error_message_def by blast
qed

theorem sofi_same_decision_as_bsn_witness:
  "NLSoFiNumberFieldValidator ''12345678'' = Inl (ValidationError ''Enter a valid SoFi number.'') \<and>
   NLBSNFieldValidator ''12345678'' = Inl (ValidationError ''Enter a valid BSN.'')"
proof -
  have "\<not> re_search bsn_regex ''12345678''" by (simp add: re_search_bsn)
  then have "NLBSNFieldValidator ''12345678'' = Inl (ValidationError ''Enter a valid BSN.'')"
    by (simp add: NLBSNFieldValidator_def bsn_error_message_def BSN_call_def RegexValidator_def)
  with sofi_same_decision_as_bsn [of "''12345678''"] show ?thesis by blast
qed

text \<open>
  C8. The all-zero string of nine digits is rejected with "Enter a valid BSN.".
  A valid number followed by a line feed is not nine digits, passes the pattern (the
  dollar sign matches before a final line feed) and the zero test, and then makes the
  checksum convert the line feed: the call ends in \<^verbatim>\<open>ValueError\<close>, not in a
  validation error.
\<close>

theorem bsn_trailing_newline_value_error:
  "NLBSNFieldValidator ''000000000'' = Inl (ValidationError ''Enter a valid BSN.'') \<and>
   NLBSNFieldValidator (''123456782'' @ [newline]) = Inl ValueError"
proof -
  have d: "list_all is_digit ''000000000''" "list_all is_digit ''123456782''"
    by (simp_all add: is_digit_def in_range_def)
  have z: "digits_value ''000000000'' = 0" "digits_value ''123456782'' \<noteq> 0"
    by (simp_all add: digits_value_def digit_val_def)
  have "BSN_call bsn_error_message ''000000000'' = Inl (ValidationError bsn_error_message)"
    using BSN_call_nine_digits [of "''000000000''" bsn_error_message] d(1) z(1) by simp
  moreover have "BSN_call bsn_error_message (''123456782'' @ [newline]) = Inl ValueError"
    using BSN_call_nine_digits_newline [of "''123456782''" bsn_error_message] d(2) z(2) by simp
  ultimately show ?thesis
    by (simp add: NLBSNFieldValidator_def bsn_error_message_def)
qed

section \<open>Phone numbers: results\<close>

lemma re_match_plus:
  "re_match [(cls, 1, None)] s \<longleftrightarrow>
     (s \<noteq> [] \<and> list_all cls s) \<or>
     (\<exists>ds. ds \<noteq> [] \<and> list_all cls ds \<and> s = ds @ [newline])"
proof
  assume "re_match [(cls, 1, None)] s"
  then obtain k where k: "1 \<le> k" "k \<le> length s" "list_all cls (take k s)" "at_dollar (drop k s)"
    unfolding re_match_Cons_iff re_match.simps(1) by auto
  show "(s \<noteq> [] \<and> list_all cls s) \<or> (\<exists>ds. ds \<noteq> [] \<and> list_all cls ds \<and> s = ds @ [newline])"
  proof (cases "k = length s")
    case True
    with k show ?thesis by auto
  next
    case False
    with k have "drop k s = [newline]" by (auto simp: at_dollar_def)
    then have "s = take k s @ [newline]" by (metis append_take_drop_id)
    moreover have "take k s \<noteq> []" using k by auto
    ultimately show ?thesis using k(3) by blast
  qed
next
  assume r: "(s \<noteq> [] \<and> list_all cls s) \<or> (\<exists>ds. ds \<noteq> [] \<and> list_all cls ds \<and> s = ds @ [newline])"
  then show "re_match [(cls, 1, None)] s"
  proof
    assume "s \<noteq> [] \<and> list_all cls s"
    then have "1 \<le> length s \<and> length s \<le> length s \<and> list_all cls (take (length s) s) \<and>
        at_dollar (drop (length s) s)"
      by (cases s) (auto simp: at_dollar_def)
    then show ?thesis unfolding re_match_Cons_iff re_match.simps(1) option.case by blast
  next
    assume "\<exists>ds. ds \<noteq> [] \<and> list_all cls ds \<and> s = ds @ [newline]"
    then obtain ds where ds: "ds \<noteq> []" "list_all cls ds" "s = ds @ [newline]" by blast
    then have "1 \<le> length ds \<and> length ds \<le> length s \<and> list_all cls (take (length ds) s) \<and>
        at_dollar (drop (length ds) s)"
      by (cases ds) (auto simp: at_dollar_def)
    then show ?thesis unfolding re_match_Cons_iff re_match.simps(1) option.case by blast
  qed
qed

lemma re_search_numeric_re:
  "re_search numeric_re s \<longleftrightarrow>
     (s \<noteq> [] \<and> list_all is_digit s) \<or>
     (\<exists>ds. ds \<noteq> [] \<and> list_all is_digit ds \<and> s = ds @ [newline])"
  unfolding re_search_def numeric_re_def by (rule re_match_plus)

lemma re_search_numeric_re_no_newline:
  assumes "newline \<notin> set s"
  shows "re_search numeric_re s \<longleftrightarrow> s \<noteq> [] \<and> list_all is_digit s"
  using assms unfolding re_search_numeric_re by auto

lemma phone_nr_no_newline: "newline \<notin> set (re_sub_empty phone_strip_class v)"
  by (simp add: re_sub_empty_def phone_strip_class_def is_space_newline)

text \<open>
  C5. The phone number validator removes every hyphen, whitespace character and
  parenthesis from the value. It accepts exactly when what is left is ten digits, or is
  "+31" followed by nine digits; otherwise it rejects with "Enter a valid phone number.".
  "0612345678" and "+31612345678" are accepted, "061234567" is rejected.
\<close>

theorem phone_accepts_iff:
  "NLPhoneNumberFieldValidator v =
     (let p = filter (\<lambda>c. \<not> (c = CHR ''-'' \<or> is_space c \<or> c = CHR ''('' \<or> c = CHR '')'')) v in
      if (length p = 10 \<and> list_all is_digit p) \<or>
         (\<exists>ds. p = ''+31'' @ ds \<and> length ds = 9 \<and> list_all is_digit ds)
      then Inr () else Inl (ValidationError ''Enter a valid phone number.''))"
proof -
  define p where "p = re_sub_empty phone_strip_class v"
  have nn: "newline \<notin> set p" "newline \<notin> set (drop 3 p)"
    using phone_nr_no_newline [of v] by (auto simp: p_def dest: in_set_dropD)
  have a: "(length p = 10 \<and> re_search numeric_re p) \<longleftrightarrow> (length p = 10 \<and> list_all is_digit p)"
    using nn(1) by (auto simp: re_search_numeric_re_no_newline)
  have b: "(take 3 p = ''+31'' \<and> length p = 12 \<and> re_search numeric_re (drop 3 p)) \<longleftrightarrow>
      (\<exists>ds. p = ''+31'' @ ds \<and> length ds = 9 \<and> list_all is_digit ds)" (is "?L \<longleftrightarrow> ?R")
  proof
    assume l: ?L
    then have "p = ''+31'' @ drop 3 p" by (metis append_take_drop_id)
    moreover have "length (drop 3 p) = 9" using l by simp
    moreover have "list_all is_digit (drop 3 p)"
      using l nn(2) by (simp add: re_search_numeric_re_no_newline)
    ultimately show ?R by blast
  next
    assume ?R
    then obtain ds where ds: "p = ''+31'' @ ds" "length ds = 9" "list_all is_digit ds" by blast
    then have "drop 3 p = ds" "take 3 p = ''+31''" "length p = 12" "ds \<noteq> []" by auto
    then show ?L
      using ds(3) nn(2) by (simp add: re_search_numeric_re_no_newline)
  qed
  have "NLPhoneNumberFieldValidator v =
      (if (length p = 10 \<and> re_search numeric_re p) \<or>
          (take 3 p = ''+31'' \<and> length p = 12 \<and> re_search numeric_re (drop 3 p))
       then Inr () else Inl (ValidationError phone_error_message))"
    by (simp add: NLPhoneNumberFieldValidator_def Let_def p_def)
  also have "\<dots> = (if (length p = 10 \<and> list_all is_digit p) \<or>
         (\<exists>ds. p = ''+31'' @ ds \<and> length ds = 9 \<and> list_all is_digit ds)
      then Inr () else Inl (ValidationError ''Enter a valid phone number.''))"
    unfolding a b phone_error_message_def ..
  finally show ?thesis
    unfolding Let_def p_def re_sub_empty_def phone_strip_class_def .
qed

theorem phone_accepts_iff_witness:
  "NLPhoneNumberFieldValidator ''0612345678'' = Inr () \<and>
   NLPhoneNumberFieldValidator ''+31612345678'' = Inr () \<and>
   NLPhoneNumberFieldValidator ''(06) 1234-5678'' = Inr () \<and>
   NLPhoneNumberFieldValidator ''061234567'' = Inl (ValidationError ''Enter a valid phone number.'')"
proof -
  have a: "NLPhoneNumberFieldValidator ''0612345678'' = Inr ()"
    unfolding phone_accepts_iff [of "''0612345678''"]
    by (simp add: is_space_def is_digit_def in_range_def)
  have "\<exists>ds. ''+31612345678'' = ''+31'' @ ds \<and> length ds = 9 \<and> list_all is_digit ds"
    by (rule exI [of _ "''612345678''"]) (simp add: is_digit_def in_range_def)
  then have b: "NLPhoneNumberFieldValidator ''+31612345678'' = Inr ()"
    unfolding phone_accepts_iff [of "''+31612345678''"]
    by (simp add: is_space_def)
  have c: "NLPhoneNumberFieldValidator ''(06) 1234-5678'' = Inr ()"
    unfolding phone_accepts_iff [of "''(06) 1234-5678''"]
    by (simp add: is_space_def is_digit_def in_range_def)
  have d: "NLPhoneNumberFieldValidator ''061234567'' = Inl (ValidationError ''Enter a valid phone number.'')"
    unfolding phone_accepts_iff [of "''061234567''"]
    by (simp add: is_space_def)
  from a b c d show ?thesis by (intro conjI)
qed

section \<open>Zip codes and postal codes: results\<close>

lemma re_match_exactly_split:
  "re_match ((cls, n, Some n) # atoms) s \<longleftrightarrow>
     (\<exists>p r. s = p @ r \<and> length p = n \<and> list_all cls p \<and> re_match atoms r)"
proof
  assume "re_match ((cls, n, Some n) # atoms) s"
  then have "s = take n s @ drop n s \<and> length (take n s) = n \<and> list_all cls (take n s) \<and>
      re_match atoms (drop n s)"
    by (simp add: re_match_exactly)
  then show "\<exists>p r. s = p @ r \<and> length p = n \<and> list_all cls p \<and> re_match atoms r" by blast
next
  assume "\<exists>p r. s = p @ r \<and> length p = n \<and> list_all cls p \<and> re_match atoms r"
  then show "re_match ((cls, n, Some n) # atoms) s"
    by (auto simp: re_match_exactly)
qed

lemma re_match_optional:
  "re_match ((cls, 0, Some 1) # atoms) s \<longleftrightarrow>
     re_match atoms s \<or> (\<exists>c r. s = c # r \<and> cls c \<and> re_match atoms r)"
proof -
  have "re_match ((cls, 0, Some 1) # atoms) s \<longleftrightarrow>
      (\<exists>k. k \<le> length s \<and> k \<le> 1 \<and> list_all cls (take k s) \<and> re_match atoms (drop k s))"
    unfolding re_match_Cons_iff option.case by simp
  also have "\<dots> \<longleftrightarrow> (list_all cls (take 0 s) \<and> re_match atoms (drop 0 s)) \<or>
      (1 \<le> length s \<and> list_all cls (take 1 s) \<and> re_match atoms (drop 1 s))"
    by (metis le_0_eq le_Suc_eq One_nat_def le_zero_eq zero_le)
  also have "\<dots> \<longleftrightarrow> re_match atoms s \<or> (\<exists>c r. s = c # r \<and> cls c \<and> re_match atoms r)"
    by (cases s) auto
  finally show ?thesis .
qed

lemma length2: "length s = 2 \<longleftrightarrow> (\<exists>a b. s = [a, b])"
  by (auto simp: eval_nat_numeral length_Suc_conv)

lemma length3: "length s = 3 \<longleftrightarrow> (\<exists>a b c. s = [a, b, c])"
  by (auto simp: eval_nat_numeral length_Suc_conv)

lemma length4: "length s = 4 \<longleftrightarrow> (\<exists>a b c d. s = [a, b, c, d])"
  by (auto simp: eval_nat_numeral length_Suc_conv)

lemma length5: "length s = 5 \<longleftrightarrow> (\<exists>a b c d e. s = [a, b, c, d, e])"
  by (auto simp: eval_nat_numeral length_Suc_conv)

lemma length1: "length s = 1 \<longleftrightarrow> (\<exists>a. s = [a])"
  by (auto simp: length_Suc_conv)

lemma re_match_last2:
  "re_match [(cls, 2, Some 2)] t \<longleftrightarrow>
     (\<exists>x y. cls x \<and> cls y \<and> (t = [x, y] \<or> t = [x, y, newline]))"
  (is "?L \<longleftrightarrow> ?R")
proof
  assume ?L
  then have l: "2 \<le> length t" "list_all cls (take 2 t)" "at_dollar (drop 2 t)"
    by (simp_all add: re_match_exactly)
  then have "length t = 2 \<or> (length t = 3 \<and> t ! 2 = newline)"
    using at_dollar_drop [of 2 t] by auto
  then show ?R
  proof
    assume "length t = 2"
    then obtain x y where "t = [x, y]" unfolding length2 by blast
    with l(2) show ?R by simp
  next
    assume "length t = 3 \<and> t ! 2 = newline"
    then obtain x y where "t = [x, y, newline]" unfolding length3 by auto
    with l(2) show ?R by simp
  qed
next
  assume ?R
  then obtain x y where "cls x" "cls y" "t = [x, y] \<or> t = [x, y, newline]" by blast
  then show ?L by (auto simp: re_match_exactly at_dollar_def)
qed

lemma re_match_last4:
  "re_match [(cls, 4, Some 4)] t \<longleftrightarrow>
     (\<exists>a b c d. cls a \<and> cls b \<and> cls c \<and> cls d \<and> (t = [a, b, c, d] \<or> t = [a, b, c, d, newline]))"
  (is "?L \<longleftrightarrow> ?R")
proof
  assume ?L
  then have l: "4 \<le> length t" "list_all cls (take 4 t)" "at_dollar (drop 4 t)"
    by (simp_all add: re_match_exactly)
  then have "length t = 4 \<or> (length t = 5 \<and> t ! 4 = newline)"
    using at_dollar_drop [of 4 t] by auto
  then show ?R
  proof
    assume "length t = 4"
    then obtain a b c d where "t = [a, b, c, d]" unfolding length4 by blast
    with l(2) show ?R by simp
  next
    assume "length t = 5 \<and> t ! 4 = newline"
    then obtain a b c d where "t = [a, b, c, d, newline]" unfolding length5 by auto
    with l(2) show ?R by simp
  qed
next
  assume ?R
  then obtain a b c d where "cls a" "cls b" "cls c" "cls d"
    "t = [a, b, c, d] \<or> t = [a, b, c, d, newline]" by blast
  then show ?L by (auto simp: re_match_exactly at_dollar_def)
qed

lemma zip_shapes:
  assumes "is_digit a" "is_digit b" "is_digit c" "is_digit d" "is_upper x" "is_upper y"
  shows "re_search zip_regex [a, b, c, d, x, y]"
    and "re_search zip_regex [a, b, c, d, CHR '' '', x, y]"
    and "re_search zip_regex [a, b, c, d, x, y, newline]"
    and "re_search zip_regex [a, b, c, d, CHR '' '', x, y, newline]"
  unfolding re_search_def zip_regex_def re_match_exactly re_match_optional re_match.simps(1)
  using assms by (simp_all add: at_dollar_def)

lemma mt_shapes:
  assumes "is_upper x" "is_upper y" "is_upper z" "is_digit a" "is_digit b" "is_digit c" "is_digit d"
  shows "re_search mt_regex [x, y, z, CHR '' '', a, b, c, d]"
    and "re_search mt_regex [x, y, z, CHR '' '', a, b, c, d, newline]"
  unfolding re_search_def mt_regex_def re_match_exactly re_match.simps(1)
  using assms by (simp_all add: at_dollar_def)

text \<open>The strings the zip code pattern finds.\<close>

lemma re_search_zip_regex:
  "re_search zip_regex v \<longleftrightarrow>
     (\<exists>a b c d x y. is_digit a \<and> is_digit b \<and> is_digit c \<and> is_digit d \<and> is_upper x \<and> is_upper y \<and>
        (v = [a, b, c, d, x, y] \<or> v = [a, b, c, d, CHR '' '', x, y] \<or>
         v = [a, b, c, d, x, y, newline] \<or> v = [a, b, c, d, CHR '' '', x, y, newline]))"
  (is "?L \<longleftrightarrow> ?R")
proof -
  have step: "?L \<longleftrightarrow> (\<exists>p r. v = p @ r \<and> length p = 4 \<and> list_all is_digit p \<and>
      (re_match [(is_upper, 2, Some 2)] r \<or>
       (\<exists>c r'. r = c # r' \<and> c = CHR '' '' \<and> re_match [(is_upper, 2, Some 2)] r')))"
    unfolding re_search_def zip_regex_def re_match_exactly_split [of _ 4] re_match_optional ..
  show ?thesis
  proof
    assume ?L
    then obtain p r where pr: "v = p @ r" "length p = 4" "list_all is_digit p"
      and r: "re_match [(is_upper, 2, Some 2)] r \<or>
       (\<exists>r'. r = CHR '' '' # r' \<and> re_match [(is_upper, 2, Some 2)] r')"
      unfolding step by blast
    from pr(2) obtain a b c d where p: "p = [a, b, c, d]" unfolding length4 by blast
    with pr(3) have dg: "is_digit a" "is_digit b" "is_digit c" "is_digit d" by simp_all
    from r obtain x y where xy: "is_upper x" "is_upper y"
      and sh: "r = [x, y] \<or> r = [x, y, newline] \<or> r = [CHR '' '', x, y] \<or> r = [CHR '' '', x, y, newline]"
      unfolding re_match_last2 by blast
    have "v = [a, b, c, d, x, y] \<or> v = [a, b, c, d, CHR '' '', x, y] \<or>
         v = [a, b, c, d, x, y, newline] \<or> v = [a, b, c, d, CHR '' '', x, y, newline]"
      using sh by (auto simp: pr(1) p)
    with dg xy show ?R by blast
  next
    assume ?R
    then show ?L using zip_shapes by (elim exE conjE disjE) simp_all
  qed
qed

text \<open>The strings the Maltese postal code pattern finds.\<close>

lemma re_search_mt_regex:
  "re_search mt_regex v \<longleftrightarrow>
     (\<exists>x y z a b c d. is_upper x \<and> is_upper y \<and> is_upper z \<and>
        is_digit a \<and> is_digit b \<and> is_digit c \<and> is_digit d \<and>
        (v = [x, y, z, CHR '' '', a, b, c, d] \<or> v = [x, y, z, CHR '' '', a, b, c, d, newline]))"
  (is "?L \<longleftrightarrow> ?R")
proof -
  have step: "?L \<longleftrightarrow> (\<exists>p r. v = p @ r \<and> length p = 3 \<and> list_all is_upper p \<and>
      (\<exists>q t. r = q @ t \<and> length q = 1 \<and> list_all (\<lambda>c. c = CHR '' '') q \<and>
         re_match [(is_digit, 4, Some 4)] t))"
    unfolding re_search_def mt_regex_def re_match_exactly_split [of _ 3]
      re_match_exactly_split [of _ 1] ..
  show ?thesis
  proof
    assume ?L
    then obtain p q t where pr: "v = p @ q @ t" "length p = 3" "list_all is_upper p"
      "length q = 1" "list_all (\<lambda>c. c = CHR '' '') q" "re_match [(is_digit, 4, Some 4)] t"
      unfolding step by blast
    from pr(2) obtain x y z where p: "p = [x, y, z]" unfolding length3 by blast
    with pr(3) have up: "is_upper x" "is_upper y" "is_upper z" by simp_all
    from pr(4,5) have q: "q = [CHR '' '']" unfolding length1 by auto
    from pr(6) obtain a b c d where dg: "is_digit a" "is_digit b" "is_digit c" "is_digit d"
      and t: "t = [a, b, c, d] \<or> t = [a, b, c, d, newline]"
      unfolding re_match_last4 by blast
    have "v = [x, y, z, CHR '' '', a, b, c, d] \<or> v = [x, y, z, CHR '' '', a, b, c, d, newline]"
      using t by (auto simp: pr(1) p q)
    with up dg show ?R by blast
  next
    assume ?R
    then show ?L using mt_shapes by (elim exE conjE disjE) simp_all
  qed
qed


lemma zip_prefix_digits:
  assumes "re_search zip_regex v"
  shows "length (take 4 v) = 4" and "list_all is_digit (take 4 v)"
    and "py_int (take 4 v) = Inr (digits_value (take 4 v))"
proof -
  from assms have "4 \<le> length v \<and> list_all is_digit (take 4 v)"
    unfolding re_search_def zip_regex_def re_match_exactly by simp
  then show l: "length (take 4 v) = 4" and d: "list_all is_digit (take 4 v)" by simp_all
  from l have "take 4 v \<noteq> []" by auto
  then show "py_int (take 4 v) = Inr (digits_value (take 4 v))"
    using d by (rule py_int_digits)
qed

lemma zip_call:
  "NLZipCodeFieldValidator v =
     (if re_search zip_regex v \<and> 1000 \<le> digits_value (take 4 v)
      then Inr () else Inl (ValidationError zip_error_message))"
  by (auto simp: NLZipCodeFieldValidator_def RegexValidator_def zip_prefix_digits(3))

text \<open>The values the zip code validator accepts.\<close>

lemma zip_accepted_values:
  "NLZipCodeFieldValidator v = Inr () \<longleftrightarrow>
     (\<exists>a b c d x y. is_digit a \<and> is_digit b \<and> is_digit c \<and> is_digit d \<and> is_upper x \<and> is_upper y \<and>
        1000 \<le> digits_value [a, b, c, d] \<and>
        (v = [a, b, c, d, x, y] \<or> v = [a, b, c, d, CHR '' '', x, y] \<or>
         v = [a, b, c, d, x, y, newline] \<or> v = [a, b, c, d, CHR '' '', x, y, newline]))"
  (is "?L \<longleftrightarrow> ?R")
proof
  assume ?L
  then have re: "re_search zip_regex v" and ge: "1000 \<le> digits_value (take 4 v)"
    unfolding zip_call [of v] by (auto split: if_splits)
  from re obtain a b c d x y where dg: "is_digit a" "is_digit b" "is_digit c" "is_digit d"
    and up: "is_upper x" "is_upper y"
    and sh: "v = [a, b, c, d, x, y] \<or> v = [a, b, c, d, CHR '' '', x, y] \<or>
         v = [a, b, c, d, x, y, newline] \<or> v = [a, b, c, d, CHR '' '', x, y, newline]"
    unfolding re_search_zip_regex by blast
  from sh have "take 4 v = [a, b, c, d]" by (elim disjE) simp_all
  with ge have "1000 \<le> digits_value [a, b, c, d]" by simp
  with dg up sh show ?R by blast
next
  assume ?R
  then obtain a b c d x y where dg: "is_digit a" "is_digit b" "is_digit c" "is_digit d"
    and up: "is_upper x" "is_upper y" and ge: "1000 \<le> digits_value [a, b, c, d]"
    and sh: "v = [a, b, c, d, x, y] \<or> v = [a, b, c, d, CHR '' '', x, y] \<or>
         v = [a, b, c, d, x, y, newline] \<or> v = [a, b, c, d, CHR '' '', x, y, newline]"
    by blast
  from sh have t: "take 4 v = [a, b, c, d]" by (elim disjE) simp_all
  from sh have "re_search zip_regex v"
    using zip_shapes [OF dg up] by (elim disjE) simp_all
  then show ?L unfolding zip_call [of v] using ge t by simp
qed

text \<open>
  C6. "1011 AB" is accepted, and "0999 AB" is found by the pattern and rejected by the
  second test with "Enter a valid zip code.". "1011 AB" followed by a line feed is eight
  characters, not four digits, an optional space and two capitals, and is accepted all
  the same: the dollar sign of the pattern matches before a final line feed, and the
  conversion of the first four characters does not see it (\<open>zip_accepted_values\<close> gives
  every accepted value).
\<close>

theorem zip_accepts_trailing_newline:
  "NLZipCodeFieldValidator ''1011 AB'' = Inr () \<and>
   re_search zip_regex ''0999 AB'' \<and>
   NLZipCodeFieldValidator ''0999 AB'' = Inl (ValidationError ''Enter a valid zip code.'') \<and>
   length (''1011 AB'' @ [newline]) = 8 \<and>
   NLZipCodeFieldValidator (''1011 AB'' @ [newline]) = Inr ()"
proof -
  have r1: "re_search zip_regex ''1011 AB''"
    by (rule zip_shapes(2)) (simp_all add: is_digit_def is_upper_def in_range_def)
  have r2: "re_search zip_regex ''0999 AB''"
    by (rule zip_shapes(2)) (simp_all add: is_digit_def is_upper_def in_range_def)
  have r3: "re_search zip_regex (''1011 AB'' @ [newline])"
    using zip_shapes(4) [of "CHR ''1''" "CHR ''0''" "CHR ''1''" "CHR ''1''" "CHR ''A''" "CHR ''B''"]
    by (simp add: is_digit_def is_upper_def in_range_def)
  have v1: "1000 \<le> digits_value (take 4 ''1011 AB'')"
    by (simp add: digits_value_def digit_val_def)
  have v2: "\<not> 1000 \<le> digits_value (take 4 ''0999 AB'')"
    by (simp add: digits_value_def digit_val_def)
  have v3: "1000 \<le> digits_value (take 4 (''1011 AB'' @ [newline]))"
    by (simp add: digits_value_def digit_val_def)
  have a: "NLZipCodeFieldValidator ''1011 AB'' = Inr ()"
    unfolding zip_call [of "''1011 AB''"] using r1 v1 by (simp only: simp_thms if_True)
  have b: "NLZipCodeFieldValidator ''0999 AB'' = Inl (ValidationError ''Enter a valid zip code.'')"
    unfolding zip_call [of "''0999 AB''"] zip_error_message_def
    using v2 by (simp only: simp_thms if_False)
  have c: "NLZipCodeFieldValidator (''1011 AB'' @ [newline]) = Inr ()"
    unfolding zip_call [of "''1011 AB'' @ [newline]"] using r3 v3 by (simp only: simp_thms if_True)
  have l: "length (''1011 AB'' @ [newline]) = 8" by simp
  from a r2 b l c show ?thesis by (intro conjI)
qed

text \<open>
  C10. The conversion of the first four characters is reached only after the pattern
  has been found. Then those four characters exist and are decimal digits, and the
  conversion returns their value. So a call of the zip code validator ends in
  acceptance or in the validation error, never in another exception.
\<close>

theorem zip_int_never_fails:
  "(re_search zip_regex v \<longrightarrow>
      length (take 4 v) = 4 \<and> list_all is_digit (take 4 v) \<and>
      py_int (take 4 v) = Inr (digits_value (take 4 v))) \<and>
   (NLZipCodeFieldValidator v = Inr () \<or>
    NLZipCodeFieldValidator v = Inl (ValidationError ''Enter a valid zip code.''))"
proof -
  have "NLZipCodeFieldValidator v = Inr () \<or>
    NLZipCodeFieldValidator v = Inl (ValidationError ''Enter a valid zip code.'')"
    unfolding zip_call [of v] zip_error_message_def by simp
  then show ?thesis using zip_prefix_digits [of v] by blast
qed

theorem zip_int_never_fails_witness:
  "re_search zip_regex ''0999 AB'' \<and> py_int (take 4 ''0999 AB'') = Inr 999 \<and>
   NLZipCodeFieldValidator ''0999 AB'' = Inl (ValidationError ''Enter a valid zip code.'')"
proof -
  have r: "re_search zip_regex ''0999 AB''"
    by (rule zip_shapes(2)) (simp_all add: is_digit_def is_upper_def in_range_def)
  have v: "digits_value (take 4 ''0999 AB'') = 999"
    by (simp add: digits_value_def digit_val_def)
  have n: "NLZipCodeFieldValidator ''0999 AB'' \<noteq> Inr ()"
    unfolding zip_call [of "''0999 AB''"] using v by simp
  from zip_int_never_fails [of "''0999 AB''"] r v n show ?thesis by simp
qed

lemma mt_call:
  "MTPostalCodeField required v =
     (if v = [] then (if required then Inl (ValidationError ''This field is required.'') else Inr ())
      else if \<exists>x y z a b c d. is_upper x \<and> is_upper y \<and> is_upper z \<and>
            is_digit a \<and> is_digit b \<and> is_digit c \<and> is_digit d \<and>
            (v = [x, y, z, CHR '' '', a, b, c, d] \<or> v = [x, y, z, CHR '' '', a, b, c, d, newline])
      then Inr () else Inl (ValidationError ''Enter a valid postal code in format AAA 0000.''))"
  unfolding MTPostalCodeField_def RegexValidator_def re_search_mt_regex mt_invalid_def
    field_required_def ..

text \<open>
  C9. Whether the field is required or not, "ABC 1234" is accepted and "AB1 1234" is
  rejected with "Enter a valid postal code in format AAA 0000.". "ABC 1234" followed by
  a line feed is nine characters, not three capitals, a space and four digits, and is
  accepted all the same: the dollar sign of the pattern matches before a final line feed
  (\<open>mt_call\<close> gives every accepted value).
\<close>

theorem mt_accepts_trailing_newline:
  "MTPostalCodeField required ''ABC 1234'' = Inr () \<and>
   MTPostalCodeField required ''AB1 1234'' =
     Inl (ValidationError ''Enter a valid postal code in format AAA 0000.'') \<and>
   length (''ABC 1234'' @ [newline]) = 9 \<and>
   MTPostalCodeField required (''ABC 1234'' @ [newline]) = Inr ()"
proof -
  have a: "re_search mt_regex ''ABC 1234''"
    by (rule mt_shapes(1)) (simp_all add: is_digit_def is_upper_def in_range_def)
  have b: "re_search mt_regex (''ABC 1234'' @ [newline])"
    using mt_shapes(2) [of "CHR ''A''" "CHR ''B''" "CHR ''C''" "CHR ''1''" "CHR ''2''" "CHR ''3''" "CHR ''4''"]
    by (simp add: is_digit_def is_upper_def in_range_def)
  have c: "\<not> re_search mt_regex ''AB1 1234''"
    unfolding re_search_mt_regex by (simp add: is_upper_def in_range_def)
  from a b c show ?thesis
    by (simp add: MTPostalCodeField_def RegexValidator_def mt_invalid_def)
qed

section \<open>Bank account numbers: results\<close>

lemma re_search_bank_regex:
  "re_search bank_regex s \<longleftrightarrow>
     (s \<noteq> [] \<and> list_all is_digit s) \<or>
     (\<exists>ds. ds \<noteq> [] \<and> list_all is_digit ds \<and> s = ds @ [newline])"
  unfolding re_search_def bank_regex_def by (rule re_match_plus)

lemma is_nonzero_digit_iff: "is_digit c \<Longrightarrow> is_nonzero_digit c \<longleftrightarrow> c \<noteq> CHR ''0''"
proof -
  assume "is_digit c"
  then have r: "48 \<le> (of_char c :: nat)" "(of_char c :: nat) \<le> 57"
    by (simp_all add: is_digit_def in_range_def)
  have "c = CHR ''0'' \<longleftrightarrow> (of_char c :: nat) = of_char (CHR ''0'')"
    by (simp only: of_char_eq_iff)
  then have "c = CHR ''0'' \<longleftrightarrow> (of_char c :: nat) = 48" by simp
  with r show ?thesis by (auto simp: is_nonzero_digit_def in_range_def)
qed

lemma re_search_start_digits:
  "list_all is_digit v \<Longrightarrow>
   re_search_start is_nonzero_digit v =
     (if dropWhile (\<lambda>c. c = CHR ''0'') v = [] then None
      else Some (length (takeWhile (\<lambda>c. c = CHR ''0'') v)))"
  by (induction v) (auto simp: is_nonzero_digit_iff)

lemma length10:
  "length s = 10 \<longleftrightarrow> (\<exists>a b c d e f g h i j. s = [a, b, c, d, e, f, g, h, i, j])"
  by (auto simp: eval_nat_numeral length_Suc_conv)

lemma range_1_11: "[1 ..< 11] = [1, 2, 3, 4, 5, 6, 7, 8, 9, 10 :: nat]"
  by code_simp

lemma eleven_test_sum_digits:
  assumes "list_all is_digit [a, b, c, d, e, f, g, h, i, j]"
  shows "eleven_test_sum [a, b, c, d, e, f, g, h, i, j] =
     Inr (digit_val a * 1 + digit_val b * 2 + digit_val c * 3 + digit_val d * 4 + digit_val e * 5
          + digit_val f * 6 + digit_val g * 7 + digit_val h * 8 + digit_val i * 9 + digit_val j * 10)"
  using assms unfolding eleven_test_sum_def range_1_11
  by (simp add: py_int_digit)

lemma eleven_test_sum_ten:
  assumes "length p = 10" "list_all is_digit p"
  shows "eleven_test_sum p = Inr (\<Sum>i<10. digit_val (p ! i) * (int i + 1))"
proof -
  from assms(1) obtain a b c d e f g h i j where p: "p = [a, b, c, d, e, f, g, h, i, j]"
    unfolding length10 by blast
  have "(\<Sum>k<10. digit_val (p ! k) * (int k + 1)) =
      digit_val a * 1 + digit_val b * 2 + digit_val c * 3 + digit_val d * 4 + digit_val e * 5
          + digit_val f * 6 + digit_val g * 7 + digit_val h * 8 + digit_val i * 9 + digit_val j * 10"
    by (simp add: p eval_nat_numeral lessThan_Suc)
  then show ?thesis
    using assms(2) unfolding p by (simp only: eleven_test_sum_digits)
qed

text \<open>The validator on a string of at most ten digits, in terms of the string without its leading zeros.\<close>

lemma bank_call_digits:
  assumes "v \<noteq> []" "list_all is_digit v" "length v \<le> 10"
  shows "NLBankAccountNumberFieldValidator v =
     (let w = dropWhile (\<lambda>c. c = CHR ''0'') v in
      if w = [] then Inl (ValidationError bank_invalid)
      else if length w = 8 then Inl (ValidationError bank_wrong_length)
      else if length w = 9 \<or> length w = 10 then
        (case eleven_test_sum (if length w = 9 then CHR ''0'' # w else w) of
           Inl e \<Rightarrow> Inl e
         | Inr eleven \<Rightarrow>
             if eleven mod 11 \<noteq> 0 then Inl (ValidationError bank_invalid) else Inr ())
      else Inr ())"
proof -
  define w where "w = dropWhile (\<lambda>c. c = CHR ''0'') v"
  have re: "re_search bank_regex v" using assms by (simp add: re_search_bank_regex)
  have d: "drop (length (takeWhile (\<lambda>c. c = CHR ''0'') v)) v = w"
    by (simp add: w_def dropWhile_eq_drop)
  have "length w \<le> length v" unfolding w_def by (rule length_dropWhile_le)
  with assms(3) have lw: "length w \<le> 10" by simp
  have st: "re_search_start is_nonzero_digit v =
     (if w = [] then None else Some (length (takeWhile (\<lambda>c. c = CHR ''0'') v)))"
    unfolding w_def using assms(2) by (rule re_search_start_digits)
  show ?thesis
  proof (cases "w = []")
    case True
    then show ?thesis
      using assms(3) by (simp add: NLBankAccountNumberFieldValidator_def RegexValidator_def re st
          w_def [symmetric] Let_def)
  next
    case False
    then have l1: "Suc 0 \<le> length w" by (cases w) auto
    show ?thesis
      using assms(3) False lw l1
      by (auto simp: NLBankAccountNumberFieldValidator_def RegexValidator_def re st d
          w_def [symmetric] Let_def)
  qed
qed


text \<open>
  C1 as stated fails: the pattern test comes before the length test, so a value of
  eleven letters is rejected with "Enter a valid bank account number.", not with the
  length message; and the length message of the code reads "1 - 7", with spaces.
\<close>

theorem bank_over_length_counterexample:
  "10 < length ''abcdefghijk'' \<and>
   NLBankAccountNumberFieldValidator ''abcdefghijk'' =
     Inl (ValidationError ''Enter a valid bank account number.'') \<and>
   10 < length ''12345678901'' \<and>
   NLBankAccountNumberFieldValidator ''12345678901'' =
     Inl (ValidationError ''Bank account numbers have 1 - 7, 9 or 10 digits.'')"
proof -
  have a: "\<not> re_search bank_regex ''abcdefghijk''"
    unfolding re_search_bank_regex by (auto simp: is_digit_def in_range_def)
  have b: "re_search bank_regex ''12345678901''"
    unfolding re_search_bank_regex by (simp add: is_digit_def in_range_def)
  show ?thesis
    by (simp add: NLBankAccountNumberFieldValidator_def RegexValidator_def a b bank_invalid_def
        bank_wrong_length_def)
qed

text \<open>
  C1, amended. A value of more than ten characters is always rejected, before zeros are
  stripped and before any checksum: with "Bank account numbers have 1 - 7, 9 or 10
  digits." when it passes the pattern test, that is when it consists of digits, possibly
  followed by one final line feed; with "Enter a valid bank account number." otherwise.
\<close>

theorem bank_over_length:
  assumes "10 < length v"
  shows "NLBankAccountNumberFieldValidator v =
     Inl (ValidationError
       (if list_all is_digit v \<or> (\<exists>ds. list_all is_digit ds \<and> v = ds @ [newline])
        then ''Bank account numbers have 1 - 7, 9 or 10 digits.''
        else ''Enter a valid bank account number.''))"
proof -
  from assms have ne: "v \<noteq> []" by auto
  have "\<And>ds. v = ds @ [newline] \<Longrightarrow> ds \<noteq> []" using assms by auto
  then have "re_search bank_regex v \<longleftrightarrow>
      list_all is_digit v \<or> (\<exists>ds. list_all is_digit ds \<and> v = ds @ [newline])"
    unfolding re_search_bank_regex using ne by blast
  then show ?thesis
    using assms
    by (simp add: NLBankAccountNumberFieldValidator_def RegexValidator_def bank_invalid_def
        bank_wrong_length_def)
qed

theorem bank_over_length_witness:
  "10 < length (''1234567890'' @ [newline]) \<and>
   NLBankAccountNumberFieldValidator (''1234567890'' @ [newline]) =
     Inl (ValidationError ''Bank account numbers have 1 - 7, 9 or 10 digits.'')"
proof -
  have l: "10 < length (''1234567890'' @ [newline])" by simp
  have "\<exists>ds. list_all is_digit ds \<and> ''1234567890'' @ [newline] = ds @ [newline]"
    by (rule exI [of _ "''1234567890''"]) (simp add: is_digit_def in_range_def)
  then show ?thesis
    using bank_over_length [OF l] l by (simp only: simp_thms if_True)
qed

text \<open>
  C2 as stated fails: "01000000001" consists of digits, is the ten digits "1000000001"
  once its leading zero is stripped (the search for a non-zero digit starts at index 1),
  and the weighted sum of those ten digits is 11; it is rejected all the same, with the
  length message, because the value itself has eleven characters.
\<close>

theorem bank_eleven_test_counterexample:
  "list_all is_digit ''01000000001'' \<and>
   re_search_start is_nonzero_digit ''01000000001'' = Some 1 \<and>
   drop 1 ''01000000001'' = ''1000000001'' \<and>
   length ''1000000001'' = 10 \<and>
   eleven_test_sum ''1000000001'' = Inr 11 \<and>
   NLBankAccountNumberFieldValidator ''01000000001'' =
     Inl (ValidationError ''Bank account numbers have 1 - 7, 9 or 10 digits.'')"
proof -
  have d: "list_all is_digit ''01000000001''" by (simp add: is_digit_def in_range_def)
  have st: "re_search_start is_nonzero_digit ''01000000001'' = Some 1"
    by (simp add: is_nonzero_digit_def in_range_def)
  have dr: "drop 1 ''01000000001'' = ''1000000001''" by simp
  have l: "length ''1000000001'' = 10" by simp
  have "list_all is_digit ''1000000001''" by (simp add: is_digit_def in_range_def)
  then have s: "eleven_test_sum ''1000000001'' = Inr 11"
    by (simp only: eleven_test_sum_digits) (simp add: digit_val_def)
  have r: "re_search bank_regex ''01000000001''"
    unfolding re_search_bank_regex using d by simp
  have n: "NLBankAccountNumberFieldValidator ''01000000001'' =
     Inl (ValidationError ''Bank account numbers have 1 - 7, 9 or 10 digits.'')"
    by (simp add: NLBankAccountNumberFieldValidator_def RegexValidator_def r bank_wrong_length_def)
  from d st dr l s n show ?thesis by (intro conjI)
qed

text \<open>
  C2, amended. For a value of at most ten characters, all digits, that is nine or ten
  digits long once its leading zeros are stripped: take the stripped value if it has ten
  digits and the stripped value behind one "0" if it has nine. The validator accepts
  exactly when the sum of its digits, weighted 1 for the leftmost up to 10 for the
  rightmost, is divisible by 11; otherwise it rejects with "Enter a valid bank account
  number.".
\<close>

theorem bank_eleven_test:
  assumes "list_all is_digit v" and "length v \<le> 10"
    and "length (dropWhile (\<lambda>c. c = CHR ''0'') v) = 9 \<or> length (dropWhile (\<lambda>c. c = CHR ''0'') v) = 10"
  shows "NLBankAccountNumberFieldValidator v =
     (let w = dropWhile (\<lambda>c. c = CHR ''0'') v;
          p = (if length w = 9 then CHR ''0'' # w else w)
      in if 11 dvd (\<Sum>i<10. digit_val (p ! i) * (int i + 1)) then Inr ()
         else Inl (ValidationError ''Enter a valid bank account number.''))"
proof -
  define w where "w = dropWhile (\<lambda>c. c = CHR ''0'') v"
  define p where "p = (if length w = 9 then CHR ''0'' # w else w)"
  from assms(3) have lw: "length w = 9 \<or> length w = 10" by (simp add: w_def)
  then have wne: "w \<noteq> []" by auto
  then have ne: "v \<noteq> []" by (auto simp: w_def)
  have "set w \<subseteq> set v" unfolding w_def by (rule set_dropWhileD [THEN subsetI])
  with assms(1) have dw: "list_all is_digit w" by (auto simp: list_all_iff)
  have z: "is_digit (CHR ''0'')" by (simp add: is_digit_def in_range_def)
  have lp: "length p = 10" using lw by (auto simp: p_def)
  have dp: "list_all is_digit p" using dw z by (simp add: p_def)
  have "NLBankAccountNumberFieldValidator v =
      (case eleven_test_sum p of
           Inl e \<Rightarrow> Inl e
         | Inr eleven \<Rightarrow>
             if eleven mod 11 \<noteq> 0 then Inl (ValidationError bank_invalid) else Inr ())"
    unfolding bank_call_digits [OF ne assms(1,2)] w_def [symmetric] Let_def p_def
    using lw wne by auto
  also have "\<dots> = (if 11 dvd (\<Sum>i<10. digit_val (p ! i) * (int i + 1)) then Inr ()
         else Inl (ValidationError ''Enter a valid bank account number.''))"
    unfolding eleven_test_sum_ten [OF lp dp] by (simp add: bank_invalid_def dvd_eq_mod_eq_0)
  finally show ?thesis unfolding Let_def w_def [symmetric] p_def [symmetric] .
qed


theorem bank_eleven_test_witness:
  "list_all is_digit ''0123456789'' \<and> length ''0123456789'' \<le> 10 \<and>
   length (dropWhile (\<lambda>c. c = CHR ''0'') ''0123456789'') = 9 \<and>
   NLBankAccountNumberFieldValidator ''0123456789'' = Inr ()"
proof -
  have d: "list_all is_digit ''0123456789''" by (simp add: is_digit_def in_range_def)
  have l: "length ''0123456789'' \<le> 10" by simp
  have w: "length (dropWhile (\<lambda>c. c = CHR ''0'') ''0123456789'') = 9" by simp
  have "NLBankAccountNumberFieldValidator ''0123456789'' = Inr ()"
    unfolding bank_eleven_test [OF d l disjI1 [OF w]]
    by (simp add: eval_nat_numeral lessThan_Suc digit_val_def)
  with d l w show ?thesis by (intro conjI)
qed

text \<open>
  C7. A string of exactly nine digits and the same string behind one "0" get the same
  outcome from the bank account validator: the same acceptance or the same error. In
  particular "123456789" and "0123456789" are both accepted.
\<close>

theorem bank_left_pad:
  assumes "length s = 9" and "list_all is_digit s"
  shows "NLBankAccountNumberFieldValidator (CHR ''0'' # s) = NLBankAccountNumberFieldValidator s"
proof -
  from assms(1) have ne: "s \<noteq> []" and l: "length s \<le> 10" "length (CHR ''0'' # s) \<le> 10" by auto
  have d: "list_all is_digit (CHR ''0'' # s)"
    using assms(2) by (simp add: is_digit_def in_range_def)
  have w: "dropWhile (\<lambda>c. c = CHR ''0'') (CHR ''0'' # s) = dropWhile (\<lambda>c. c = CHR ''0'') s"
    by simp
  show ?thesis
    unfolding bank_call_digits [OF ne assms(2) l(1)] bank_call_digits [OF list.distinct(2) d l(2)] w ..
qed

theorem bank_left_pad_witness:
  "length ''123456789'' = 9 \<and> list_all is_digit ''123456789'' \<and>
   NLBankAccountNumberFieldValidator ''0123456789'' = NLBankAccountNumberFieldValidator ''123456789'' \<and>
   NLBankAccountNumberFieldValidator ''123456789'' = Inr ()"
proof -
  have l: "length ''123456789'' = 9" by simp
  have d: "list_all is_digit ''123456789''" by (simp add: is_digit_def in_range_def)
  have a: "NLBankAccountNumberFieldValidator ''123456789'' = Inr ()" by code_simp
  from bank_left_pad [OF l d] l d a show ?thesis by (intro conjI)
qed

end
